theory Spec2Isabelle
  imports Complex_Main
begin

section \<open>The crawler of \<^verbatim>\<open>scraper.py\<close>: data\<close>

text \<open>
  The fields of class \<^verbatim>\<open>Scraper\<close> that its methods read. \<^verbatim>\<open>__init__\<close> sets
  them to constants and reads the clock once for \<^verbatim>\<open>start_time\<close>. Clock readings are
  exact rationals here (Python's floats are such numbers; the rounding of the one
  subtraction \<^verbatim>\<open>time.time() - self.start_time\<close> is not modelled).
\<close>

record scraper =
  max_depth :: int
  max_urls :: int
  max_time_in_sec :: int
  kafka_topic :: string
  start_time :: rat
  bucket_name :: string

definition Scraper_init :: "rat \<Rightarrow> scraper" where
  "Scraper_init now =
     \<lparr>max_depth = 2, max_urls = 5, max_time_in_sec = 30, kafka_topic = ''new_urls'',
      start_time = now, bucket_name = ''yonatangazitwebscraper''\<rparr>"

text \<open>What \<^verbatim>\<open>requests.get\<close> returns, as far as \<^verbatim>\<open>scrape\<close> reads it.\<close>

record response =
  status_code :: int
  resp_content :: string
  resp_text :: string

text \<open>
  The queue message \<^verbatim>\<open>json.dumps({'url': href, 'depth': depth})\<close>, kept as the pair it
  encodes.
\<close>

record message =
  msg_url :: string
  msg_depth :: int

text \<open>The texts handed to \<^verbatim>\<open>logging\<close> and \<^verbatim>\<open>print\<close>, by the values they are formatted from.\<close>

datatype log_msg =
    StartScraping string int
  | DepthExceeded int int
  | ScrapeError string
  | Uploaded string
  | UploadError
  | MaxUrlsReached int string
  | MaxTimeReached int
  | Scraped string int
  | CleanupError

datatype print_msg =
    SaveToS3 string
  | FileDeleted string
  | FileNotFound string
  | Data message

text \<open>The exceptions that no handler of the code catches.\<close>

datatype exn = TypeError | OSError | ValueError

text \<open>Every call that leaves the process, in the order the code makes them.\<close>

datatype event =
    LogInfo log_msg
  | LogError log_msg
  | Print print_msg
  | HttpGet string
  | FileWrite string
  | FileRemove string
  | S3Upload string string string
  | RedisIncr string
  | RedisGet string
  | RedisSIsMember string string
  | RedisSAdd string string
  | ClockRead
  | Sleep
  | KafkaSend string message
  | ProducerClose
  | ConsumerCommit string nat
  | ConsumerClose

text \<open>
  The world outside the process: the Redis database (its integer keys and its set keys;
  the two key families of the code have different prefixes), the local directory, the
  bucket, the Kafka topics with the offset committed for group
  \<^verbatim>\<open>web_scraping_group\<close>, and the trace of calls made so far.
\<close>

record world =
  trace :: "event list"
  redis_strings :: "string \<rightharpoonup> int"
  redis_sets :: "string \<Rightarrow> string set"
  files :: "string \<rightharpoonup> string"
  s3 :: "(string \<times> string) \<rightharpoonup> string"
  topics :: "string \<Rightarrow> message list"
  committed :: "string \<rightharpoonup> nat"

text \<open>
  What the collaborators answer. The code does not decide it, so it is a parameter; an
  answer may change from one call to the next, so it depends on the number of calls made
  before (the length of the trace). \<^verbatim>\<open>requests.get\<close> returns a response or raises
  (\<open>None\<close>); \<^verbatim>\<open>find_all_a_href\<close> is
  \<^verbatim>\<open>BeautifulSoup(response.content, "html").find_all("a")\<close> followed by
  \<^verbatim>\<open>link.get('href')\<close>, which is \<open>None\<close> for an anchor without the attribute;
  \<^verbatim>\<open>open(file_path, "w")\<close> succeeds or raises \<^verbatim>\<open>OSError\<close> (a file name longer than the
  file system allows, for one); the upload to S3 succeeds or raises; \<^verbatim>\<open>urlparse\<close> gives
  the scheme and the network location of a URL or raises \<^verbatim>\<open>ValueError\<close> (\<open>None\<close>);
  \<^verbatim>\<open>urljoin\<close> is the function of \<^verbatim>\<open>urllib.parse\<close>; \<^verbatim>\<open>consumer_iter_ends\<close> says
  whether iterating a consumer stops when no message is left (otherwise it waits for
  ever).
\<close>

record env =
  http_get :: "nat \<Rightarrow> string \<Rightarrow> response option"
  find_all_a_href :: "response \<Rightarrow> string option list"
  open_ok :: "nat \<Rightarrow> string \<Rightarrow> bool"
  s3_upload_ok :: "nat \<Rightarrow> bool"
  time_time :: "nat \<Rightarrow> rat"
  urlparse :: "string \<Rightarrow> (string \<times> string) option"
  urljoin :: "string \<Rightarrow> string \<Rightarrow> string"
  consumer_iter_ends :: "nat \<Rightarrow> bool"

text \<open>
  \<^verbatim>\<open>Response.raise_for_status\<close> of the \<^verbatim>\<open>requests\<close> library raises \<^verbatim>\<open>HTTPError\<close> for a
  status from 400 to 599 and for no other.
\<close>

definition raise_for_status :: "response \<Rightarrow> bool" where
  "raise_for_status resp \<longleftrightarrow> 400 \<le> status_code resp \<and> status_code resp < 600"

text \<open>
  How a call ends: it returns, it raises an exception that nothing catches, or it waits
  for ever (iterating a \<^verbatim>\<open>KafkaConsumer\<close> waits for the next message when none is left,
  unless the iterator is told to stop). Each carries the world the call has reached.
\<close>

datatype 'a outcome = Returns 'a | Raises exn 'a | Blocks 'a

fun final :: "'a outcome \<Rightarrow> 'a" where
  "final (Returns w) = w"
| "final (Raises e w) = w"
| "final (Blocks w) = w"

fun raised :: "'a outcome \<Rightarrow> exn option" where
  "raised (Returns w) = None"
| "raised (Raises e w) = Some e"
| "raised (Blocks w) = None"

text \<open>The next statement runs only when the one before has returned.\<close>

fun and_then :: "'a outcome \<Rightarrow> ('a \<Rightarrow> 'a outcome) \<Rightarrow> 'a outcome" where
  "and_then (Returns w) f = f w"
| "and_then (Raises e w) f = Raises e w"
| "and_then (Blocks w) f = Blocks w"

section \<open>Operations\<close>

definition emit :: "event \<Rightarrow> world \<Rightarrow> world" where
  "emit e w = w\<lparr>trace := trace w @ [e]\<rparr>"

subsection \<open>Redis commands\<close>

definition redis_incr :: "string \<Rightarrow> world \<Rightarrow> world" where
  "redis_incr k w =
     emit (RedisIncr k)
       (w\<lparr>redis_strings := (redis_strings w)(k \<mapsto> (case redis_strings w k of None \<Rightarrow> 1 | Some n \<Rightarrow> n + 1))\<rparr>)"

definition redis_get :: "string \<Rightarrow> world \<Rightarrow> int option \<times> world" where
  "redis_get k w = (redis_strings w k, emit (RedisGet k) w)"

definition redis_sismember :: "string \<Rightarrow> string \<Rightarrow> world \<Rightarrow> bool \<times> world" where
  "redis_sismember k m w = (m \<in> redis_sets w k, emit (RedisSIsMember k m) w)"

definition redis_sadd :: "string \<Rightarrow> string \<Rightarrow> world \<Rightarrow> world" where
  "redis_sadd k m w =
     emit (RedisSAdd k m) (w\<lparr>redis_sets := (redis_sets w)(k := insert m (redis_sets w k))\<rparr>)"

subsection \<open>Files and the bucket\<close>

text \<open>Lines 29, 30 and 33 of \<^verbatim>\<open>create_file\<close>: the name, and the path in directory \<^verbatim>\<open>.\<close>\<close>

definition file_name_of :: "string \<Rightarrow> string" where
  "file_name_of url =
     map (\<lambda>c. if c = CHR ''/'' \<or> c = CHR '':'' \<or> c = CHR ''.'' then CHR ''_'' else c) url
       @ ''.txt''"

definition file_path_of :: "string \<Rightarrow> string" where
  "file_path_of url = ''./'' @ file_name_of url"

text \<open>\<^verbatim>\<open>create_file\<close> returns the path and the name, or \<^verbatim>\<open>open\<close> raises (\<open>None\<close>).\<close>

definition create_file ::
  "env \<Rightarrow> string \<Rightarrow> string \<Rightarrow> world \<Rightarrow> (string \<times> string) option \<times> world"
where
  "create_file env url raw_html w =
     (let filename = file_name_of url;
          file_path = file_path_of url
      in if open_ok env (length (trace w)) file_path then
           (Some (file_path, filename),
            emit (FileWrite file_path)
              (w\<lparr>files := (files w)(file_path \<mapsto> url @ [CHR 0x0A] @ raw_html)\<rparr>))
         else (None, emit (FileWrite file_path) w))"

text \<open>
  \<^verbatim>\<open>delete_file\<close> catches every exception of \<^verbatim>\<open>os.remove\<close>: the file is removed, or
  reported missing (removing a file that is there is taken to succeed).
\<close>

definition delete_file :: "string \<Rightarrow> world \<Rightarrow> world" where
  "delete_file file_path w =
     (case files w file_path of
        Some _ \<Rightarrow>
          emit (Print (FileDeleted file_path))
            (emit (FileRemove file_path) (w\<lparr>files := (files w)(file_path := None)\<rparr>))
      | None \<Rightarrow>
          emit (Print (FileNotFound file_path)) (emit (FileRemove file_path) w))"

text \<open>
  Lines 100 to 107: the upload in its \<^verbatim>\<open>try\<close>; whatever it raises is logged and
  \<^verbatim>\<open>scrape\<close> goes on.
\<close>

definition upload_file :: "scraper \<Rightarrow> env \<Rightarrow> string \<Rightarrow> string \<Rightarrow> world \<Rightarrow> world" where
  "upload_file self env file_path file_name w =
     (let w1 = emit (S3Upload file_path (bucket_name self) file_name) w in
      if s3_upload_ok env (length (trace w)) then
        (case files w file_path of
           Some body \<Rightarrow>
             emit (LogInfo (Uploaded (''https://'' @ bucket_name self @ ''.s3.amazonaws.com/'' @ file_name)))
               (w1\<lparr>s3 := (s3 w1)((bucket_name self, file_name) \<mapsto> body)\<rparr>)
         | None \<Rightarrow> emit (LogError UploadError) w1)
      else emit (LogError UploadError) w1)"

subsection \<open>The producer\<close>

definition producer_send :: "string \<Rightarrow> message \<Rightarrow> world \<Rightarrow> world" where
  "producer_send t m w = emit (KafkaSend t m) (w\<lparr>topics := (topics w)(t := topics w t @ [m])\<rparr>)"

subsection \<open>\<^verbatim>\<open>Scraper.process_link\<close>\<close>

definition visited_key :: "string \<Rightarrow> string" where
  "visited_key href = ''visited_urls:'' @ href"

text \<open>
  Lines 138 to 147: the branch taken when the membership test answered no. \<^verbatim>\<open>sadd\<close>
  comes first; \<^verbatim>\<open>urlparse(href)\<close> and, for a link without scheme,
  \<^verbatim>\<open>urlparse(self.kafka_topic)\<close> may raise after it.
\<close>

definition enqueue_link :: "scraper \<Rightarrow> env \<Rightarrow> string \<Rightarrow> int \<Rightarrow> world \<Rightarrow> world outcome" where
  "enqueue_link self env href depth w =
     (let w1 = redis_sadd (visited_key href) href w in
      case urlparse env href of
        None \<Rightarrow> Raises ValueError w1
      | Some (scheme, netloc) \<Rightarrow>
          if scheme = [] then
            (case urlparse env (kafka_topic self) of
               None \<Rightarrow> Raises ValueError w1
             | Some (base_scheme, base_netloc) \<Rightarrow>
                 Returns
                   (producer_send (kafka_topic self)
                      \<lparr>msg_url = urljoin env (base_scheme @ ''://'' @ base_netloc) href,
                       msg_depth = depth\<rparr> w1))
          else
            Returns (producer_send (kafka_topic self) \<lparr>msg_url = href, msg_depth = depth\<rparr> w1))"

definition process_link :: "scraper \<Rightarrow> env \<Rightarrow> string option \<Rightarrow> int \<Rightarrow> world \<Rightarrow> world outcome" where
  "process_link self env href depth w =
     (case href of
        None \<Rightarrow> Returns w
      | Some h \<Rightarrow>
          if h = [] then Returns w
          else
            (case redis_sismember (visited_key h) h w of
               (seen, w1) \<Rightarrow> if \<not> seen then enqueue_link self env h depth w1 else Returns w1))"

text \<open>Lines 127 to 129: the loop over the anchors; an exception ends it.\<close>

fun process_links :: "scraper \<Rightarrow> env \<Rightarrow> int \<Rightarrow> string option list \<Rightarrow> world \<Rightarrow> world outcome" where
  "process_links self env depth [] w = Returns w"
| "process_links self env depth (href # hrefs) w =
     and_then (process_link self env href depth w) (process_links self env depth hrefs)"

subsection \<open>\<^verbatim>\<open>Scraper.scrape\<close>\<close>

definition urls_visited_key :: "string \<Rightarrow> string" where
  "urls_visited_key url = ''urls_visited_count:'' @ url"

text \<open>
  Line 120: \<^verbatim>\<open>self.max_time_in_sec and time.time() - self.start_time >= self.max_time_in_sec\<close>.
  The clock is read only when \<^verbatim>\<open>max_time_in_sec\<close> is not zero.
\<close>

definition time_limit_reached :: "scraper \<Rightarrow> env \<Rightarrow> world \<Rightarrow> bool \<times> world" where
  "time_limit_reached self env w =
     (if max_time_in_sec self \<noteq> 0 then
        (time_time env (length (trace w)) - start_time self \<ge> of_int (max_time_in_sec self), emit ClockRead w)
      else (False, w))"

text \<open>
  Lines 94 to 109: the page is written to a file, uploaded, and the file deleted. When
  \<^verbatim>\<open>open\<close> raises in \<^verbatim>\<open>create_file\<close>, the exception leaves \<^verbatim>\<open>scrape\<close>.
\<close>

definition save_page :: "scraper \<Rightarrow> env \<Rightarrow> string \<Rightarrow> response \<Rightarrow> world \<Rightarrow> world outcome" where
  "save_page self env url resp w =
     (case create_file env url (resp_text resp) w of
        (None, w1) \<Rightarrow> Raises OSError w1
      | (Some (file_path, file_name), w1) \<Rightarrow>
          Returns
            (delete_file file_path
               (upload_file self env file_path file_name (emit (Print (SaveToS3 url)) w1))))"

text \<open>
  Lines 111 to 129: the counter, the two limits and the links. \<^verbatim>\<open>int(None)\<close> raises
  \<^verbatim>\<open>TypeError\<close>; \<^verbatim>\<open>get\<close> answers \<open>None\<close> for a key that does not exist, which is not
  the case right after \<^verbatim>\<open>incr\<close>.
\<close>

definition count_and_follow ::
  "scraper \<Rightarrow> env \<Rightarrow> string \<Rightarrow> int \<Rightarrow> response \<Rightarrow> world \<Rightarrow> world outcome"
where
  "count_and_follow self env url depth resp w4 =
     (let w5 = redis_incr (urls_visited_key url) w4
      in (case redis_get (urls_visited_key url) w5 of
            (None, w6) \<Rightarrow> Raises TypeError w6
          | (Some urls_visited_count, w6) \<Rightarrow>
              if urls_visited_count \<ge> max_urls self then
                Returns (emit (LogInfo (MaxUrlsReached (max_urls self) url)) w6)
              else
                (case time_limit_reached self env w6 of
                   (reached, w7) \<Rightarrow>
                     if reached then
                       Returns (emit (LogInfo (MaxTimeReached (max_time_in_sec self))) w7)
                     else
                       process_links self env (depth + 1) (find_all_a_href env resp)
                         (emit (LogInfo (Scraped url depth)) w7))))"

text \<open>
  Lines 94 to 129: what \<^verbatim>\<open>scrape\<close> does with a response that passed
  \<^verbatim>\<open>raise_for_status\<close>.
\<close>

definition scrape_response ::
  "scraper \<Rightarrow> env \<Rightarrow> string \<Rightarrow> int \<Rightarrow> response \<Rightarrow> world \<Rightarrow> world outcome"
where
  "scrape_response self env url depth resp w =
     and_then (save_page self env url resp w) (count_and_follow self env url depth resp)"

definition scrape :: "scraper \<Rightarrow> env \<Rightarrow> string \<Rightarrow> int \<Rightarrow> world \<Rightarrow> world outcome" where
  "scrape self env url depth w =
     (if depth > max_depth self then
        Returns (emit (LogInfo (DepthExceeded depth (max_depth self))) w)
      else
        (case http_get env (length (trace w)) url of
           None \<Rightarrow> Returns (emit (LogError (ScrapeError url)) (emit (HttpGet url) w))
         | Some resp \<Rightarrow>
             if raise_for_status resp then
               Returns (emit (LogError (ScrapeError url)) (emit (HttpGet url) w))
             else scrape_response self env url depth resp (emit (HttpGet url) w)))"


subsection \<open>The consumers\<close>

text \<open>
  \<^verbatim>\<open>Scraper.empty_kafka_queue\<close>. Its consumer has \<^verbatim>\<open>auto_offset_reset='earliest'\<close>: it
  starts at the offset committed for the group, or at the beginning of the topic. The body
  of the loop is \<^verbatim>\<open>consumer.commit()\<close>, which commits the position after the message just
  delivered.
\<close>

definition drain_start :: "scraper \<Rightarrow> world \<Rightarrow> nat" where
  "drain_start self w = (case committed w (kafka_topic self) of Some n \<Rightarrow> n | None \<Rightarrow> 0)"

fun commit_each :: "string \<Rightarrow> nat \<Rightarrow> message list \<Rightarrow> world \<Rightarrow> world" where
  "commit_each t pos [] w = w"
| "commit_each t pos (m # ms) w =
     commit_each t (pos + 1) ms
       (emit (ConsumerCommit t (pos + 1)) (w\<lparr>committed := (committed w)(t \<mapsto> pos + 1)\<rparr>))"

definition empty_kafka_queue :: "scraper \<Rightarrow> env \<Rightarrow> world \<Rightarrow> world outcome" where
  "empty_kafka_queue self env w =
     (let t = kafka_topic self;
          pos = drain_start self w;
          w1 = commit_each t pos (drop pos (topics w t)) w
      in if consumer_iter_ends env (length (trace w1)) then Returns (emit ConsumerClose w1)
         else Blocks w1)"

text \<open>
  \<^verbatim>\<open>Scraper.cleanup\<close>: an exception of the two calls would be caught and logged; the two
  calls as modelled raise none.
\<close>

definition cleanup :: "scraper \<Rightarrow> env \<Rightarrow> world \<Rightarrow> world outcome" where
  "cleanup self env w = empty_kafka_queue self env (emit ProducerClose w)"

text \<open>
  \<^verbatim>\<open>Scraper.run_kafka_consumer\<close>. Its consumer has the default
  \<^verbatim>\<open>auto_offset_reset='latest'\<close>: it starts at the offset committed for the group, or at
  the end of the topic. The loop never returns: with enough fuel the result says how it
  ends, waiting for a message for ever or with an exception of \<^verbatim>\<open>scrape\<close>, and \<open>None\<close>
  says that the fuel ran out.
\<close>

definition worker_start :: "scraper \<Rightarrow> world \<Rightarrow> nat" where
  "worker_start self w =
     (case committed w (kafka_topic self) of Some n \<Rightarrow> n | None \<Rightarrow> length (topics w (kafka_topic self)))"

fun consume :: "nat \<Rightarrow> scraper \<Rightarrow> env \<Rightarrow> nat \<Rightarrow> world \<Rightarrow> world outcome option" where
  "consume 0 self env pos w = None"
| "consume (Suc fuel) self env pos w =
     (if pos < length (topics w (kafka_topic self)) then
        (let data = topics w (kafka_topic self) ! pos
         in case scrape self env (msg_url data) (msg_depth data) (emit (Print (Data data)) w) of
              Returns w' \<Rightarrow> consume fuel self env (pos + 1) w'
            | Raises e w' \<Rightarrow> Some (Raises e w')
            | Blocks w' \<Rightarrow> Some (Blocks w'))
      else if consumer_iter_ends env (length (trace w)) then consume fuel self env pos (emit Sleep w)
      else Some (Blocks w))"

definition run_kafka_consumer :: "nat \<Rightarrow> scraper \<Rightarrow> env \<Rightarrow> world \<Rightarrow> world outcome option" where
  "run_kafka_consumer fuel self env w = consume fuel self env (worker_start self w) (emit Sleep w)"

subsection \<open>Two calls of \<^verbatim>\<open>process_link\<close> side by side\<close>

text \<open>
  \<^verbatim>\<open>process_link\<close> talks to Redis twice: \<^verbatim>\<open>sismember\<close> (line 137) and \<^verbatim>\<open>sadd\<close>
  (line 138). A call is at one of these places: before the first, between the two, back,
  or left by an exception. One step runs the call up to its next Redis command.
\<close>

datatype pc = AtSIsMember | AtSAdd | Back | Left exn

definition pc_after :: "world outcome \<Rightarrow> pc" where
  "pc_after r = (case raised r of None \<Rightarrow> Back | Some e \<Rightarrow> Left e)"

fun link_step :: "scraper \<Rightarrow> env \<Rightarrow> string \<Rightarrow> int \<Rightarrow> pc \<times> world \<Rightarrow> pc \<times> world" where
  "link_step self env h depth (AtSIsMember, w) =
     (if h = [] then (Back, w)
      else (case redis_sismember (visited_key h) h w of
              (seen, w1) \<Rightarrow> if \<not> seen then (AtSAdd, w1) else (Back, w1)))"
| "link_step self env h depth (AtSAdd, w) =
     (pc_after (enqueue_link self env h depth w), final (enqueue_link self env h depth w))"
| "link_step self env h depth (Back, w) = (Back, w)"
| "link_step self env h depth (Left e, w) = (Left e, w)"

text \<open>
  Two workers, each in a call of \<^verbatim>\<open>process_link\<close>; the schedule says which of them
  takes the next step (\<open>True\<close> for the first).
\<close>

fun run_two ::
  "scraper \<Rightarrow> env \<Rightarrow> string \<times> int \<Rightarrow> string \<times> int \<Rightarrow> bool list \<Rightarrow> pc \<times> pc \<times> world \<Rightarrow> pc \<times> pc \<times> world"
where
  "run_two self env a b [] s = s"
| "run_two self env a b (first # sched) (pa, pb, w) =
     (if first then
        (case link_step self env (fst a) (snd a) (pa, w) of
           (pa', w') \<Rightarrow> run_two self env a b sched (pa', pb, w'))
      else
        (case link_step self env (fst b) (snd b) (pb, w) of
           (pb', w') \<Rightarrow> run_two self env a b sched (pa, pb', w')))"

subsection \<open>Observations\<close>

text \<open>The pages requested so far, and the value of a visited counter.\<close>

fun http_gets :: "event list \<Rightarrow> string list" where
  "http_gets [] = []"
| "http_gets (HttpGet u # es) = u # http_gets es"
| "http_gets (_ # es) = http_gets es"

definition fetches :: "world \<Rightarrow> string list" where
  "fetches w = http_gets (trace w)"

definition visited_count :: "world \<Rightarrow> string \<Rightarrow> int" where
  "visited_count w url = (case redis_strings w (urls_visited_key url) of None \<Rightarrow> 0 | Some n \<Rightarrow> n)"

text \<open>The calls made from world \<open>w\<close> to world \<open>w'\<close>.\<close>

definition new_events :: "world \<Rightarrow> world \<Rightarrow> event list" where
  "new_events w w' = drop (length (trace w)) (trace w')"

text \<open>Lines 87 to 92: the request raises, or \<^verbatim>\<open>raise_for_status\<close> does.\<close>

definition fetch_fails :: "env \<Rightarrow> world \<Rightarrow> string \<Rightarrow> bool" where
  "fetch_fails env w url =
     (case http_get env (length (trace w)) url of None \<Rightarrow> True | Some resp \<Rightarrow> raise_for_status resp)"

text \<open>
  Lines 140 to 144 raise nothing for the link: \<^verbatim>\<open>urlparse\<close> accepts it, and accepts the
  topic name when the link has no scheme.
\<close>

definition parses :: "scraper \<Rightarrow> env \<Rightarrow> string \<Rightarrow> bool" where
  "parses self env href =
     (case urlparse env href of
        None \<Rightarrow> False
      | Some (scheme, netloc) \<Rightarrow> scheme \<noteq> [] \<or> urlparse env (kafka_topic self) \<noteq> None)"

text \<open>
  The world after line 115 of \<^verbatim>\<open>scrape\<close>, when the file could be written: the page
  saved, the counter incremented and read.
\<close>

definition counted :: "scraper \<Rightarrow> env \<Rightarrow> string \<Rightarrow> response \<Rightarrow> world \<Rightarrow> world" where
  "counted self env url resp w =
     emit (RedisGet (urls_visited_key url))
       (redis_incr (urls_visited_key url) (final (save_page self env url resp w)))"

text \<open>
  How many messages a run of \<^verbatim>\<open>process_link\<close> calls sends for one link text; the calls
  may belong to different calls of \<^verbatim>\<open>scrape\<close>, so a call that raises does not end the run.
\<close>

fun link_publishes ::
  "scraper \<Rightarrow> env \<Rightarrow> string \<Rightarrow> (string option \<times> int) list \<Rightarrow> world \<Rightarrow> nat"
where
  "link_publishes self env h [] w = 0"
| "link_publishes self env h ((l, d) # cs) w =
     (if l = Some h then
        length (topics (final (process_link self env l d w)) (kafka_topic self))
          - length (topics w (kafka_topic self))
      else 0)
     + link_publishes self env h cs (final (process_link self env l d w))"

text \<open>
  Two worlds that differ in one entry of the trace, and in the bucket, at most.
\<close>

definition same_but_event :: "nat \<Rightarrow> event \<Rightarrow> world \<Rightarrow> world \<Rightarrow> bool" where
  "same_but_event i e w1 w2 \<longleftrightarrow>
     i < length (trace w2) \<and> trace w1 = (trace w2)[i := e]
     \<and> redis_strings w1 = redis_strings w2 \<and> redis_sets w1 = redis_sets w2
     \<and> topics w1 = topics w2 \<and> files w1 = files w2 \<and> committed w1 = committed w2"

text \<open>Two calls that end the same way, in worlds that differ so.\<close>

fun same_run :: "nat \<Rightarrow> event \<Rightarrow> world outcome \<Rightarrow> world outcome \<Rightarrow> bool" where
  "same_run i e (Returns w1) (Returns w2) = same_but_event i e w1 w2"
| "same_run i e (Raises x w1) (Raises y w2) = (x = y \<and> same_but_event i e w1 w2)"
| "same_run i e (Blocks w1) (Blocks w2) = same_but_event i e w1 w2"
| "same_run i e _ _ = False"

text \<open>The same collaborators, except that the upload asked for at call \<open>n\<close> succeeds.\<close>

definition upload_succeeds_at :: "nat \<Rightarrow> env \<Rightarrow> env" where
  "upload_succeeds_at n env = env\<lparr>s3_upload_ok := (s3_upload_ok env)(n := True)\<rparr>"

subsection \<open>Collaborators for concrete runs\<close>

text \<open>
  A server that answers every URL with a page of three anchors (one of them without
  \<^verbatim>\<open>href\<close>), except that \<^verbatim>\<open>http://down\<close> cannot be reached, \<^verbatim>\<open>http://missing\<close> answers
  404 and \<^verbatim>\<open>http://choices\<close> answers 300 without a redirection; a directory whose file
  names are at most 255 bytes long; a clock that stands at \<open>t\<close>. \<^verbatim>\<open>urlparse\<close> and
  \<^verbatim>\<open>urljoin\<close> answer as \<^verbatim>\<open>urllib.parse\<close> does on the strings of the runs below:
  \<^verbatim>\<open>urlparse('http://[')\<close> raises \<^verbatim>\<open>ValueError\<close>, \<^verbatim>\<open>urlparse('http://b')\<close> has scheme
  \<^verbatim>\<open>http\<close> and location \<^verbatim>\<open>b\<close>, \<^verbatim>\<open>urlparse('/about')\<close>, \<^verbatim>\<open>urlparse('about')\<close> and
  \<^verbatim>\<open>urlparse('new_urls')\<close> have neither, \<^verbatim>\<open>urljoin('://', '/about')\<close> is \<^verbatim>\<open>/about\<close> and
  \<^verbatim>\<open>urljoin('://', 'about')\<close> is \<^verbatim>\<open>:/about\<close>.
\<close>

definition example_page :: "int \<Rightarrow> response" where
  "example_page status = \<lparr>status_code = status, resp_content = ''page'', resp_text = ''page''\<rparr>"

definition example_env :: "rat \<Rightarrow> bool \<Rightarrow> env" where
  "example_env t upload =
     \<lparr>http_get =
        (\<lambda>_ url. if url = ''http://down'' then None
                 else if url = ''http://missing'' then Some (example_page 404)
                 else if url = ''http://choices'' then Some (example_page 300)
                 else Some (example_page 200)),
      find_all_a_href = (\<lambda>_. [Some ''/about'', None, Some ''http://b'']),
      open_ok = (\<lambda>_ path. length path \<le> 257),
      s3_upload_ok = (\<lambda>_. upload),
      time_time = (\<lambda>_. t),
      urlparse =
        (\<lambda>s. if s = ''http://['' then None
             else if s = ''http://b'' then Some (''http'', ''b'')
             else Some ([], [])),
      urljoin = (\<lambda>base h. if base = ''://'' \<and> h = ''about'' then '':/about'' else h),
      consumer_iter_ends = (\<lambda>_. False)\<rparr>"

definition empty_world :: world where
  "empty_world =
     \<lparr>trace = [], redis_strings = Map.empty, redis_sets = (\<lambda>_. {}), files = Map.empty,
      s3 = Map.empty, topics = (\<lambda>_. []), committed = Map.empty\<rparr>"


text \<open>A topic with two messages waiting and nothing committed.\<close>

definition two_pending :: world where
  "two_pending =
     empty_world\<lparr>topics := (\<lambda>_. [])(''new_urls'' :=
        [\<lparr>msg_url = ''http://a/x'', msg_depth = 1\<rparr>, \<lparr>msg_url = ''http://a/y'', msg_depth = 1\<rparr>])\<rparr>"

section \<open>Properties\<close>

lemma http_gets_append: "http_gets (xs @ ys) = http_gets xs @ http_gets ys"
  by (induction xs rule: http_gets.induct) simp_all

subsection \<open>What each operation changes\<close>

lemmas ops_defs = emit_def redis_incr_def redis_get_def redis_sismember_def redis_sadd_def
  producer_send_def enqueue_link_def process_link_def

lemma emit_fields:
  "trace (emit e w) = trace w @ [e]"
  "redis_strings (emit e w) = redis_strings w"
  "redis_sets (emit e w) = redis_sets w"
  "topics (emit e w) = topics w"
  "files (emit e w) = files w"
  "s3 (emit e w) = s3 w"
  "committed (emit e w) = committed w"
  by (simp_all add: emit_def)

lemma fetches_emit: "fetches (emit e w) = fetches w @ http_gets [e]"
  by (simp add: fetches_def emit_def http_gets_append)

lemma redis_incr_fields:
  "trace (redis_incr k w) = trace w @ [RedisIncr k]"
  "redis_strings (redis_incr k w) = (redis_strings w)(k \<mapsto> (case redis_strings w k of None \<Rightarrow> 1 | Some n \<Rightarrow> n + 1))"
  "redis_sets (redis_incr k w) = redis_sets w"
  "topics (redis_incr k w) = topics w"
  "files (redis_incr k w) = files w"
  "s3 (redis_incr k w) = s3 w"
  "committed (redis_incr k w) = committed w"
  by (simp_all add: redis_incr_def emit_def)

lemma final_and_then_cases:
  "(\<exists>w'. r = Returns w' \<and> and_then r f = f w') \<or> (raised r \<noteq> None \<and> and_then r f = r)
   \<or> (\<exists>w'. r = Blocks w' \<and> and_then r f = r)"
  by (cases r) simp_all


lemma process_link_frame:
  "fetches (final (process_link self env href d w)) = fetches w"
  "redis_strings (final (process_link self env href d w)) = redis_strings w"
  "files (final (process_link self env href d w)) = files w"
  "s3 (final (process_link self env href d w)) = s3 w"
  "committed (final (process_link self env href d w)) = committed w"
  by (auto simp: ops_defs fetches_def http_gets_append Let_def split: option.splits prod.splits)

lemma process_link_trace: "\<exists>es. trace (final (process_link self env href d w)) = trace w @ es"
  by (auto simp: ops_defs Let_def split: option.splits prod.splits)

lemma process_link_seen:
  assumes "h \<in> redis_sets w (visited_key h)"
  shows "topics (final (process_link self env (Some h) d w)) = topics w"
    and "redis_sets (final (process_link self env (Some h) d w)) = redis_sets w"
    and "raised (process_link self env (Some h) d w) = None"
  using assms by (simp_all add: ops_defs)

lemma process_link_empty: "process_link self env (Some []) d w = Returns w"
  by (simp add: process_link_def)

lemma process_link_keeps_member:
  "m \<in> redis_sets w k \<Longrightarrow> m \<in> redis_sets (final (process_link self env l d w)) k"
  by (auto simp: ops_defs Let_def split: option.splits prod.splits)

lemma process_link_marks:
  "h \<noteq> [] \<Longrightarrow> h \<in> redis_sets (final (process_link self env (Some h) d w)) (visited_key h)"
  by (auto simp: ops_defs Let_def split: option.splits prod.splits)

lemma process_link_topic_grows:
  "length (topics w t) \<le> length (topics (final (process_link self env l d w)) t)"
  "length (topics (final (process_link self env l d w)) t) \<le> length (topics w t) + 1"
  by (auto simp: ops_defs Let_def split: option.splits prod.splits)


lemma process_link_unseen_absolute:
  assumes "h \<noteq> []" and "h \<notin> redis_sets w (visited_key h)"
    and "urlparse env h = Some (scheme, netloc)" and "scheme \<noteq> []"
  shows "process_link self env (Some h) d w =
           Returns (producer_send (kafka_topic self) \<lparr>msg_url = h, msg_depth = d\<rparr>
                      (redis_sadd (visited_key h) h (emit (RedisSIsMember (visited_key h) h) w)))"
  using assms by (simp add: process_link_def enqueue_link_def redis_sismember_def)


lemma link_publishes_seen:
  "h \<in> redis_sets w (visited_key h) \<Longrightarrow> link_publishes self env h cs w = 0"
proof (induction cs arbitrary: w)
  case Nil
  show ?case by simp
next
  case (Cons c cs)
  obtain l d where c: "c = (l, d)" by (cases c)
  have "h \<in> redis_sets (final (process_link self env l d w)) (visited_key h)"
    using Cons.prems by (rule process_link_keeps_member)
  then have "link_publishes self env h cs (final (process_link self env l d w)) = 0"
    by (rule Cons.IH)
  then show ?case
    using Cons.prems c by (simp add: process_link_seen)
qed

lemma link_publishes_le_1: "link_publishes self env h cs w \<le> 1"
proof (induction cs arbitrary: w)
  case Nil
  show ?case by simp
next
  case (Cons c cs)
  obtain l d where c: "c = (l, d)" by (cases c)
  show ?case
  proof (cases "l = Some h \<and> h \<noteq> []")
    case True
    then have l: "l = Some h" and h: "h \<noteq> []" by simp_all
    have "link_publishes self env h cs (final (process_link self env (Some h) d w)) = 0"
      using h by (simp add: link_publishes_seen process_link_marks)
    moreover have "length (topics (final (process_link self env (Some h) d w)) (kafka_topic self))
                     - length (topics w (kafka_topic self)) \<le> 1"
      using process_link_topic_grows(2) [of self env "Some h" d w "kafka_topic self"] by simp
    ultimately show ?thesis
      using c l by simp
  next
    case False
    show ?thesis
    proof (cases "l = Some h")
      case True
      with False have "process_link self env l d w = Returns w"
        by (simp add: process_link_empty)
      then show ?thesis
        using True c Cons.IH [of w] by simp
    next
      case False
      then show ?thesis
        using c Cons.IH [of "final (process_link self env l d w)"] by simp
    qed
  qed
qed


lemma and_then_keeps:
  assumes "obs (final r) = obs w" and "\<And>w'. obs (final (f w')) = obs w'"
  shows "obs (final (and_then r f)) = obs w"
  using assms by (cases r) simp_all

lemma process_links_keeps:
  assumes "\<And>h w. obs (final (process_link self env h d w)) = obs w"
  shows "obs (final (process_links self env d hrefs w)) = obs w"
proof (induction hrefs arbitrary: w)
  case Nil
  show ?case by simp
next
  case (Cons h hs)
  show ?case
    using assms Cons.IH by (simp add: and_then_keeps)
qed

lemma process_links_frame:
  "fetches (final (process_links self env d hrefs w)) = fetches w"
  "redis_strings (final (process_links self env d hrefs w)) = redis_strings w"
  "files (final (process_links self env d hrefs w)) = files w"
  "s3 (final (process_links self env d hrefs w)) = s3 w"
  "committed (final (process_links self env d hrefs w)) = committed w"
  by (rule process_links_keeps, rule process_link_frame)+

lemma process_links_trace:
  "\<exists>es. trace (final (process_links self env d hrefs w)) = trace w @ es"
proof (induction hrefs arbitrary: w)
  case Nil
  show ?case by simp
next
  case (Cons h hs)
  obtain es1 where 1: "trace (final (process_link self env h d w)) = trace w @ es1"
    using process_link_trace by blast
  show ?case
  proof (cases "process_link self env h d w")
    case (Returns w1)
    obtain es2 where "trace (final (process_links self env d hs w1)) = trace w1 @ es2"
      using Cons.IH by blast
    with 1 Returns show ?thesis by simp
  next
    case (Raises e w1)
    with 1 show ?thesis by simp
  next
    case (Blocks w1)
    with 1 show ?thesis by simp
  qed
qed

lemma save_page_raises:
  assumes "\<not> open_ok env (length (trace w)) (file_path_of url)"
  shows "save_page self env url resp w = Raises OSError (emit (FileWrite (file_path_of url)) w)"
  using assms by (simp add: save_page_def create_file_def Let_def)

lemma save_page_returns:
  assumes "open_ok env (length (trace w)) (file_path_of url)"
  shows "save_page self env url resp w = Returns (final (save_page self env url resp w))"
  using assms by (simp add: save_page_def create_file_def Let_def)

lemma save_page_frame:
  "redis_strings (final (save_page self env url resp w)) = redis_strings w"
  "redis_sets (final (save_page self env url resp w)) = redis_sets w"
  "topics (final (save_page self env url resp w)) = topics w"
  "committed (final (save_page self env url resp w)) = committed w"
  "fetches (final (save_page self env url resp w)) = fetches w"
  by (simp_all add: save_page_def create_file_def upload_file_def delete_file_def emit_def
      fetches_def http_gets_append Let_def)

lemma save_page_files:
  assumes "open_ok env (length (trace w)) (file_path_of url)"
  shows "files (final (save_page self env url resp w)) = (files w)(file_path_of url := None)"
  using assms
  by (simp add: save_page_def create_file_def upload_file_def delete_file_def emit_def Let_def)

lemma save_page_trace:
  assumes "open_ok env (length (trace w)) (file_path_of url)"
  shows "trace (final (save_page self env url resp w)) =
     trace w @ [FileWrite (file_path_of url), Print (SaveToS3 url),
                S3Upload (file_path_of url) (bucket_name self) (file_name_of url),
                (if s3_upload_ok env (length (trace w) + 2)
                 then LogInfo (Uploaded (''https://'' @ bucket_name self @ ''.s3.amazonaws.com/'' @ file_name_of url))
                 else LogError UploadError),
                FileRemove (file_path_of url), Print (FileDeleted (file_path_of url))]"
  using assms
  by (simp add: save_page_def create_file_def upload_file_def delete_file_def emit_def Let_def)

lemma counted_fields:
  "redis_strings (counted self env url resp w)
     = (redis_strings w)(urls_visited_key url \<mapsto> visited_count w url + 1)"
  "redis_sets (counted self env url resp w) = redis_sets w"
  "topics (counted self env url resp w) = topics w"
  "committed (counted self env url resp w) = committed w"
  "fetches (counted self env url resp w) = fetches w"
  "trace (counted self env url resp w) = trace (final (save_page self env url resp w))
                      @ [RedisIncr (urls_visited_key url), RedisGet (urls_visited_key url)]"
  by (simp_all add: counted_def emit_fields redis_incr_fields save_page_frame visited_count_def
      fetches_def http_gets_append save_page_frame(5) [unfolded fetches_def]
      split: option.splits)

lemma counted_files:
  assumes "open_ok env (length (trace w)) (file_path_of url)"
  shows "files (counted self env url resp w) = (files w)(file_path_of url := None)"
  using assms by (simp add: counted_def emit_fields redis_incr_fields save_page_files)

lemma time_limit_reached_eq:
  "time_limit_reached self env w =
     (max_time_in_sec self \<noteq> 0
        \<and> of_int (max_time_in_sec self) \<le> time_time env (length (trace w)) - start_time self,
      if max_time_in_sec self \<noteq> 0 then emit ClockRead w else w)"
  by (simp add: time_limit_reached_def)

lemma scrape_response_cases:
  "scrape_response self env url depth resp w =
     (if \<not> open_ok env (length (trace w)) (file_path_of url) then
        Raises OSError (emit (FileWrite (file_path_of url)) w)
      else if max_urls self \<le> visited_count w url + 1 then
        Returns (emit (LogInfo (MaxUrlsReached (max_urls self) url)) (counted self env url resp w))
      else if max_time_in_sec self \<noteq> 0
              \<and> of_int (max_time_in_sec self)
                  \<le> time_time env (length (trace (counted self env url resp w))) - start_time self then
        Returns (emit (LogInfo (MaxTimeReached (max_time_in_sec self)))
                   (emit ClockRead (counted self env url resp w)))
      else
        process_links self env (depth + 1) (find_all_a_href env resp)
          (emit (LogInfo (Scraped url depth))
             (if max_time_in_sec self \<noteq> 0 then emit ClockRead (counted self env url resp w)
              else counted self env url resp w)))"
proof (cases "open_ok env (length (trace w)) (file_path_of url)")
  case False
  then show ?thesis
    by (simp add: scrape_response_def save_page_raises)
next
  case True
  define w4 where "w4 = final (save_page self env url resp w)"
  have s: "save_page self env url resp w = Returns w4"
    using True by (simp add: w4_def save_page_returns [symmetric])
  have "redis_get (urls_visited_key url) (redis_incr (urls_visited_key url) w4)
      = (Some (visited_count w url + 1), counted self env url resp w)"
    by (simp add: redis_get_def counted_def redis_incr_fields save_page_frame visited_count_def w4_def
        split: option.splits)
  then show ?thesis
    using True by (simp add: scrape_response_def s count_and_follow_def Let_def time_limit_reached_eq)
qed

lemma scrape_response_fetches:
  "fetches (final (scrape_response self env url depth resp w)) = fetches w"
  by (simp add: scrape_response_cases process_links_frame fetches_emit counted_fields)

lemma scrape_fetches:
  "fetches (final (scrape self env url depth w))
     = (if max_depth self < depth then fetches w else fetches w @ [url])"
  by (simp add: scrape_def scrape_response_fetches fetches_emit split: option.splits)

lemma scrape_stops:
  assumes "max_urls self \<le> visited_count w url + 1
           \<or> (max_time_in_sec self \<noteq> 0
               \<and> (\<forall>n\<ge>length (trace w). of_int (max_time_in_sec self) \<le> time_time env n - start_time self))"
  shows "topics (final (scrape_response self env url depth resp w)) = topics w"
    and "redis_sets (final (scrape_response self env url depth resp w)) = redis_sets w"
    and "raised (scrape_response self env url depth resp w)
           = (if open_ok env (length (trace w)) (file_path_of url) then None else Some OSError)"
proof -
  have "length (trace w) \<le> length (trace (counted self env url resp w))"
    if "open_ok env (length (trace w)) (file_path_of url)"
    using that by (simp add: counted_fields save_page_trace)
  with assms show "topics (final (scrape_response self env url depth resp w)) = topics w"
    and "redis_sets (final (scrape_response self env url depth resp w)) = redis_sets w"
    and "raised (scrape_response self env url depth resp w)
           = (if open_ok env (length (trace w)) (file_path_of url) then None else Some OSError)"
    by (auto simp add: scrape_response_cases emit_fields counted_fields)
qed


lemma scrape_response_counts:
  "redis_strings (final (scrape_response self env url depth resp w))
     = (if open_ok env (length (trace w)) (file_path_of url)
        then (redis_strings w)(urls_visited_key url \<mapsto> visited_count w url + 1)
        else redis_strings w)"
  by (simp add: scrape_response_cases process_links_frame emit_fields counted_fields)

lemma scrape_counts:
  assumes "depth \<le> max_depth self" and "\<not> fetch_fails env w url"
    and "open_ok env (length (trace w) + 1) (file_path_of url)"
  shows "visited_count (final (scrape self env url depth w)) url = visited_count w url + 1"
proof -
  obtain resp where r: "http_get env (length (trace w)) url = Some resp" "\<not> raise_for_status resp"
    using assms(2) by (auto simp: fetch_fails_def split: option.splits)
  show ?thesis
    using assms(1,3) r
    by (simp add: scrape_def visited_count_def scrape_response_counts emit_fields)
qed

lemma counted_trace:
  assumes "open_ok env (length (trace w) + 1) (file_path_of url)"
  shows "trace (counted self env url resp (emit (HttpGet url) w)) =
     trace w @
       [HttpGet url, FileWrite (file_path_of url), Print (SaveToS3 url),
        S3Upload (file_path_of url) (bucket_name self) (file_name_of url),
        (if s3_upload_ok env (length (trace w) + 3)
         then LogInfo (Uploaded (''https://'' @ bucket_name self @ ''.s3.amazonaws.com/'' @ file_name_of url))
         else LogError UploadError),
        FileRemove (file_path_of url), Print (FileDeleted (file_path_of url)),
        RedisIncr (urls_visited_key url), RedisGet (urls_visited_key url)]"
proof -
  have "open_ok env (length (trace (emit (HttpGet url) w))) (file_path_of url)"
    using assms by (simp add: emit_fields)
  then show ?thesis
    by (simp add: counted_fields save_page_trace emit_fields numeral_3_eq_3)
qed

lemma scrape_response_trace:
  assumes "open_ok env (length (trace w)) (file_path_of url)"
  shows "\<exists>es. trace (final (scrape_response self env url depth resp w))
               = trace (counted self env url resp w) @ es"
proof -
  define c where "c = counted self env url resp w"
  have go: "\<exists>es. trace (final (process_links self env (depth + 1) (find_all_a_href env resp)
                 (emit (LogInfo (Scraped url depth)) w1)))
          = trace w1 @ es" for w1
    using process_links_trace [of self env "depth + 1" "find_all_a_href env resp"
        "emit (LogInfo (Scraped url depth)) w1"]
    by (auto simp: emit_fields)
  obtain es1 where 1: "trace (final (process_links self env (depth + 1) (find_all_a_href env resp)
                 (emit (LogInfo (Scraped url depth)) c))) = trace c @ es1"
    using go by blast
  obtain es2 where 2: "trace (final (process_links self env (depth + 1) (find_all_a_href env resp)
                 (emit (LogInfo (Scraped url depth)) (emit ClockRead c))))
                 = trace c @ ClockRead # es2"
    using go [of "emit ClockRead c"] by (auto simp: emit_fields)
  show ?thesis
    unfolding scrape_response_cases c_def [symmetric]
    using 1 2 assms by (simp add: emit_fields)
qed

lemma scrape_response_files:
  assumes "open_ok env (length (trace w)) (file_path_of url)"
  shows "files (final (scrape_response self env url depth resp w)) = (files w)(file_path_of url := None)"
  using assms
  by (simp add: scrape_response_cases process_links_frame emit_fields counted_files)







lemma same_but_event_emit:
  "same_but_event i e w1 w2 \<Longrightarrow> same_but_event i e (emit x w1) (emit x w2)"
  by (simp add: same_but_event_def emit_fields list_update_append)

lemma same_but_event_redis_incr:
  "same_but_event i e w1 w2 \<Longrightarrow> same_but_event i e (redis_incr k w1) (redis_incr k w2)"
  by (simp add: same_but_event_def redis_incr_fields list_update_append)

lemma same_run_process_link:
  assumes "same_but_event i e w1 w2"
  shows "same_run i e (process_link self env h d w1) (process_link self env h d w2)"
  using assms
  by (auto simp: same_but_event_def ops_defs Let_def list_update_append split: option.splits prod.splits)

lemma same_run_and_then:
  assumes "same_run i e r1 r2" and "\<And>a b. same_but_event i e a b \<Longrightarrow> same_run i e (f a) (g b)"
  shows "same_run i e (and_then r1 f) (and_then r2 g)"
  using assms by (cases r1; cases r2) simp_all

lemma same_run_process_links:
  assumes "same_but_event i e w1 w2"
  shows "same_run i e (process_links self env d hrefs w1) (process_links self env d hrefs w2)"
  using assms
proof (induction hrefs arbitrary: w1 w2)
  case Nil
  then show ?case by simp
next
  case (Cons h hs)
  show ?case
    using Cons.prems Cons.IH by (simp add: same_run_and_then same_run_process_link)
qed

lemma enqueue_link_upload_env:
  "enqueue_link self (upload_succeeds_at n env) = enqueue_link self env"
  by (intro ext)
    (simp add: enqueue_link_def upload_succeeds_at_def Let_def split: option.splits prod.splits)

lemma process_link_upload_env:
  "process_link self (upload_succeeds_at n env) = process_link self env"
  by (intro ext) (simp add: process_link_def enqueue_link_upload_env split: option.splits prod.splits)

lemma process_links_upload_env:
  "process_links self (upload_succeeds_at n env) d hrefs = process_links self env d hrefs"
proof (induction hrefs)
  case Nil
  show ?case by (intro ext) simp
next
  case (Cons h hs)
  show ?case
    by (intro ext) (simp add: process_link_upload_env Cons.IH)
qed

lemma save_page_upload_env:
  assumes "\<not> s3_upload_ok env (length (trace w) + 2)"
    and "open_ok env (length (trace w)) (file_path_of url)"
  shows "same_but_event (length (trace w) + 3) (LogError UploadError)
           (final (save_page self env url resp w))
           (final (save_page self (upload_succeeds_at (length (trace w) + 2) env) url resp w))"
proof -
  have "open_ok (upload_succeeds_at (length (trace w) + 2) env) (length (trace w)) (file_path_of url)"
    using assms(2) by (simp add: upload_succeeds_at_def)
  then show ?thesis
    using assms
    by (simp add: same_but_event_def save_page_trace save_page_frame save_page_files
        list_update_append nth_append upload_succeeds_at_def)
qed

lemma scrape_response_upload_env:
  assumes "\<not> s3_upload_ok env (length (trace w) + 2)"
    and "open_ok env (length (trace w)) (file_path_of url)"
  shows "same_run (length (trace w) + 3) (LogError UploadError)
           (scrape_response self env url depth resp w)
           (scrape_response self (upload_succeeds_at (length (trace w) + 2) env) url depth resp w)"
proof -
  define env' where "env' = upload_succeeds_at (length (trace w) + 2) env"
  define i where "i = length (trace w) + 3"
  define e where "e = LogError UploadError"
  have c: "same_but_event i e (counted self env url resp w) (counted self env' url resp w)"
    unfolding counted_def i_def e_def env'_def
    by (intro same_but_event_emit same_but_event_redis_incr save_page_upload_env assms)
  then have len: "length (trace (counted self env url resp w)) = length (trace (counted self env' url resp w))"
    by (simp add: same_but_event_def)
  have env: "time_time env' = time_time env" "find_all_a_href env' = find_all_a_href env"
    "open_ok env' = open_ok env"
    by (simp_all add: env'_def upload_succeeds_at_def)
  have pl: "process_links self env' = process_links self env"
    by (intro ext) (simp add: env'_def process_links_upload_env)
  have "same_run i e (scrape_response self env url depth resp w)
          (scrape_response self env' url depth resp w)"
    unfolding scrape_response_cases env pl len
    using c assms(2) by (auto intro!: same_but_event_emit same_run_process_links)
  then show ?thesis
    by (simp add: i_def e_def env'_def)
qed

lemma commit_each_frame:
  "redis_strings (commit_each t pos ms w) = redis_strings w"
  "redis_sets (commit_each t pos ms w) = redis_sets w"
  "topics (commit_each t pos ms w) = topics w"
  "files (commit_each t pos ms w) = files w"
  "s3 (commit_each t pos ms w) = s3 w"
  "http_gets (trace (commit_each t pos ms w)) = http_gets (trace w)"
  by (induction ms arbitrary: pos w) (simp_all add: emit_def http_gets_append)

lemma commit_each_committed:
  "committed (commit_each t pos ms w) =
     (if ms = [] then committed w else (committed w)(t \<mapsto> pos + length ms))"
  by (induction ms arbitrary: pos w) (auto simp add: emit_def)

lemma final_empty_kafka_queue:
  "final (empty_kafka_queue self env w) =
     (let w1 = commit_each (kafka_topic self) (drain_start self w)
                 (drop (drain_start self w) (topics w (kafka_topic self))) w
      in if consumer_iter_ends env (length (trace w1)) then emit ConsumerClose w1 else w1)"
  by (simp add: empty_kafka_queue_def Let_def)

lemma drain_frame:
  "redis_strings (final (empty_kafka_queue self env w)) = redis_strings w"
  "redis_sets (final (empty_kafka_queue self env w)) = redis_sets w"
  "topics (final (empty_kafka_queue self env w)) = topics w"
  "files (final (empty_kafka_queue self env w)) = files w"
  "fetches (final (empty_kafka_queue self env w)) = fetches w"
  by (simp_all add: final_empty_kafka_queue Let_def commit_each_frame emit_fields fetches_def
      http_gets_append)

lemma drain_committed:
  "committed (final (empty_kafka_queue self env w)) (kafka_topic self) =
     (if drain_start self w < length (topics w (kafka_topic self))
      then Some (length (topics w (kafka_topic self)))
      else committed w (kafka_topic self))"
  by (simp add: final_empty_kafka_queue Let_def commit_each_committed emit_fields)

lemma drain_worker_start:
  "length (topics w (kafka_topic self)) \<le> worker_start self (final (empty_kafka_queue self env w))"
  by (simp add: worker_start_def drain_committed drain_frame drain_start_def split: option.splits)

lemma consume_nothing:
  assumes "consume fuel self env pos w = Some r" and "length (topics w (kafka_topic self)) \<le> pos"
  shows "fetches (final r) = fetches w \<and> topics (final r) = topics w
         \<and> redis_strings (final r) = redis_strings w \<and> redis_sets (final r) = redis_sets w"
  using assms
proof (induction fuel arbitrary: w)
  case 0
  then show ?case by simp
next
  case (Suc fuel)
  show ?case
  proof (cases "consumer_iter_ends env (length (trace w))")
    case True
    with Suc.prems have "consume fuel self env pos (emit Sleep w) = Some r"
      by simp
    then have "fetches (final r) = fetches (emit Sleep w) \<and> topics (final r) = topics (emit Sleep w)
         \<and> redis_strings (final r) = redis_strings (emit Sleep w)
         \<and> redis_sets (final r) = redis_sets (emit Sleep w)"
      using Suc.prems(2) by (intro Suc.IH) (simp_all add: emit_fields)
    then show ?thesis
      by (simp add: emit_fields fetches_emit)
  next
    case False
    with Suc.prems show ?thesis by auto
  qed
qed

lemma link_steps_process_link:
  "final (process_link self env (Some h) d w)
     = snd (link_step self env h d (link_step self env h d (AtSIsMember, w)))"
  by (simp add: process_link_def redis_sismember_def)

lemma process_link_twice:
  "length (topics (final (process_link self env (Some h) d' (final (process_link self env (Some h) d w))))
             (kafka_topic self))
     \<le> length (topics w (kafka_topic self)) + 1"
proof (cases "h = []")
  case True
  then show ?thesis by (simp add: process_link_empty)
next
  case False
  then have "h \<in> redis_sets (final (process_link self env (Some h) d w)) (visited_key h)"
    by (rule process_link_marks)
  then have "topics (final (process_link self env (Some h) d' (final (process_link self env (Some h) d w))))
      = topics (final (process_link self env (Some h) d w))"
    by (rule process_link_seen)
  then show ?thesis
    using process_link_topic_grows(2) [of self env "Some h" d w "kafka_topic self"] by simp
qed

lemmas scrape_defs = scrape_def scrape_response_def save_page_def count_and_follow_def
  create_file_def upload_file_def delete_file_def time_limit_reached_def file_name_of_def
  file_path_of_def urls_visited_key_def raise_for_status_def



lemma both_admitted:
  assumes "h \<noteq> []" and "h \<notin> redis_sets w (visited_key h)" and "parses self env h"
    and "sched \<in> {[True, False, True, False], [True, False, False, True],
                    [False, True, True, False], [False, True, False, True]}"
  shows "length (topics (snd (snd (run_two self env (h, d) (h, d') sched (AtSIsMember, AtSIsMember, w))))
                   (kafka_topic self))
           = length (topics w (kafka_topic self)) + 2"
  using assms
  by (auto simp: parses_def enqueue_link_def redis_sismember_def redis_sadd_def producer_send_def
      emit_def Let_def pc_after_def split: option.splits prod.splits)

subsection \<open>The claims\<close>

text \<open>
  The theorems hold for every answer of the collaborators that the record \<open>env\<close> can
  give. Redis and the Kafka producer are taken to answer every command (the code has no
  handler for their failures), Redis counters are unbounded integers, a topic is one log
  with one committed offset for the group, and the commands of different calls do not
  interleave unless a schedule says so (\<open>run_two\<close>).
\<close>

text \<open>
  C1. A task whose depth is strictly greater than \<^verbatim>\<open>max_depth\<close> is not fetched:
  \<^verbatim>\<open>scrape\<close> returns before the HTTP request. Its only effect is one log line, so no
  request is made, no counter of the store is incremented and nothing is sent to the
  queue.
\<close>

theorem scrape_depth_exceeded:
  assumes "depth > max_depth self"
  shows "scrape self env url depth w = Returns (emit (LogInfo (DepthExceeded depth (max_depth self))) w)
       \<and> fetches (final (scrape self env url depth w)) = fetches w
       \<and> redis_strings (final (scrape self env url depth w)) = redis_strings w
       \<and> redis_sets (final (scrape self env url depth w)) = redis_sets w
       \<and> topics (final (scrape self env url depth w)) = topics w"
  using assms by (simp add: scrape_def emit_def fetches_def http_gets_append)

theorem scrape_depth_exceeded_witness:
  "max_depth (Scraper_init 0) < 3
   \<and> scrape (Scraper_init 0) (example_env 1 True) ''http://a'' 3 empty_world
       = Returns (emit (LogInfo (DepthExceeded 3 2)) empty_world)
   \<and> fetches (final (scrape (Scraper_init 0) (example_env 1 True) ''http://a'' 3 empty_world)) = []"
  using scrape_depth_exceeded [of "Scraper_init 0" 3 "example_env 1 True" "''http://a''" empty_world]
  by (simp add: Scraper_init_def empty_world_def fetches_def emit_def)

text \<open>
  C2 (as the code has it). The time limit does not stop the request: the elapsed time is
  compared only after the page has been fetched, saved and counted. Once every reading of
  the clock is at least \<^verbatim>\<open>max_time_in_sec\<close> past \<^verbatim>\<open>start_time\<close> (and
  \<^verbatim>\<open>max_time_in_sec\<close> is not zero), \<^verbatim>\<open>scrape\<close> sends no link to the queue and adds
  none to the visited sets, for any task; a task whose depth is at most \<^verbatim>\<open>max_depth\<close> is
  still requested.
\<close>

theorem scrape_after_deadline:
  assumes "max_time_in_sec self \<noteq> 0"
    and "\<forall>n\<ge>length (trace w). of_int (max_time_in_sec self) \<le> time_time env n - start_time self"
  shows "topics (final (scrape self env url depth w)) = topics w
       \<and> redis_sets (final (scrape self env url depth w)) = redis_sets w
       \<and> fetches (final (scrape self env url depth w))
           = (if max_depth self < depth then fetches w else fetches w @ [url])"
proof -
  have "\<forall>n\<ge>length (trace (emit (HttpGet url) w)).
          of_int (max_time_in_sec self) \<le> time_time env n - start_time self"
    using assms(2) by (simp add: emit_fields)
  with assms(1) have
    "topics (final (scrape_response self env url depth resp (emit (HttpGet url) w))) = topics w
     \<and> redis_sets (final (scrape_response self env url depth resp (emit (HttpGet url) w))) = redis_sets w"
    for resp
    using scrape_stops(1,2) [of self "emit (HttpGet url) w" url env depth resp]
    by (simp add: emit_fields)
  then show ?thesis
    by (simp add: scrape_fetches) (simp add: scrape_def emit_fields split: option.splits)
qed

theorem scrape_after_deadline_witness:
  "max_time_in_sec (Scraper_init 0) \<noteq> 0
   \<and> topics (final (scrape (Scraper_init 0) (example_env 100 True) ''http://a'' 0 empty_world))
       = topics empty_world
   \<and> fetches (final (scrape (Scraper_init 0) (example_env 100 True) ''http://a'' 0 empty_world))
       = [''http://a'']"
  using scrape_after_deadline [of "Scraper_init 0" empty_world "example_env 100 True" "''http://a''" 0]
  by (simp add: Scraper_init_def example_env_def empty_world_def fetches_def)

text \<open>
  C2 as stated fails: with the clock 100 seconds past \<^verbatim>\<open>start_time\<close> and the limit at 30,
  the first call \<^verbatim>\<open>scrape\<close> makes is the HTTP request; the clock is read nine calls later.
\<close>

theorem scrape_fetches_after_deadline:
  "of_int (max_time_in_sec (Scraper_init 0)) \<le> time_time (example_env 100 True) 0 - start_time (Scraper_init 0)
   \<and> trace (final (scrape (Scraper_init 0) (example_env 100 True) ''http://a'' 0 empty_world))
       = [HttpGet ''http://a'', FileWrite ''./http___a.txt'', Print (SaveToS3 ''http://a''),
          S3Upload ''./http___a.txt'' ''yonatangazitwebscraper'' ''http___a.txt'',
          LogInfo (Uploaded ''https://yonatangazitwebscraper.s3.amazonaws.com/http___a.txt''),
          FileRemove ''./http___a.txt'', Print (FileDeleted ''./http___a.txt''),
          RedisIncr ''urls_visited_count:http://a'', RedisGet ''urls_visited_count:http://a'',
          ClockRead, LogInfo (MaxTimeReached 30)]"
  by (simp add: Scraper_init_def example_env_def empty_world_def example_page_def scrape_defs ops_defs Let_def)




text \<open>
  C4 (as the code has it). A link text handed to \<^verbatim>\<open>process_link\<close> any number of times,
  with any depths and among calls for other links, is sent to the queue at most once. A
  call that finds the link in its visited set sends nothing and leaves the sets as they
  are. A call that finds a non-empty link absent puts it into the set, and sends one
  message when \<^verbatim>\<open>urlparse\<close> accepts the link (and the topic name, for a link without
  scheme).
\<close>

theorem process_link_at_most_once:
  "link_publishes self env h calls w \<le> 1
   \<and> (h \<in> redis_sets w (visited_key h) \<longrightarrow>
        topics (final (process_link self env (Some h) d w)) = topics w
        \<and> redis_sets (final (process_link self env (Some h) d w)) = redis_sets w)
   \<and> (h \<noteq> [] \<and> h \<notin> redis_sets w (visited_key h) \<longrightarrow>
        h \<in> redis_sets (final (process_link self env (Some h) d w)) (visited_key h))
   \<and> (h \<noteq> [] \<and> h \<notin> redis_sets w (visited_key h) \<and> parses self env h \<longrightarrow>
        raised (process_link self env (Some h) d w) = None
        \<and> length (topics (final (process_link self env (Some h) d w)) (kafka_topic self))
            = length (topics w (kafka_topic self)) + 1)"
proof -
  have "raised (process_link self env (Some h) d w) = None
        \<and> length (topics (final (process_link self env (Some h) d w)) (kafka_topic self))
            = length (topics w (kafka_topic self)) + 1"
    if "h \<noteq> []" "h \<notin> redis_sets w (visited_key h)" "parses self env h"
    using that
    by (auto simp: parses_def process_link_def enqueue_link_def redis_sismember_def redis_sadd_def
        producer_send_def emit_def Let_def split: option.splits prod.splits)
  then show ?thesis
    using link_publishes_le_1 [of self env h calls w]
    by (simp add: process_link_seen process_link_marks)
qed

theorem process_link_at_most_once_witness:
  "link_publishes (Scraper_init 0) (example_env 1 True) ''/about''
     [(Some ''/about'', 1), (Some ''http://b'', 1), (Some ''/about'', 2)] empty_world = 1
   \<and> ''/about'' \<noteq> [] \<and> ''/about'' \<notin> redis_sets empty_world (visited_key ''/about'')
   \<and> parses (Scraper_init 0) (example_env 1 True) ''/about''
   \<and> length (topics (final (process_link (Scraper_init 0) (example_env 1 True) (Some ''/about'') 1 empty_world))
               ''new_urls'') = 1
   \<and> ''/about'' \<in> redis_sets (final (process_link (Scraper_init 0) (example_env 1 True) (Some ''/about'') 1 empty_world))
                     (visited_key ''/about'')
   \<and> topics (final (process_link (Scraper_init 0) (example_env 1 True) (Some ''/about'') 2
               (final (process_link (Scraper_init 0) (example_env 1 True) (Some ''/about'') 1 empty_world))))
       = topics (final (process_link (Scraper_init 0) (example_env 1 True) (Some ''/about'') 1 empty_world))"
  using process_link_at_most_once [of "Scraper_init 0" "example_env 1 True" "''/about''"
      "[(Some ''/about'', 1), (Some ''http://b'', 1), (Some ''/about'', 2)]"
      empty_world 1]
    process_link_at_most_once [of "Scraper_init 0" "example_env 1 True" "''/about''" "[]"
      "final (process_link (Scraper_init 0) (example_env 1 True) (Some ''/about'') 1 empty_world)" 2]
  by (simp add: Scraper_init_def empty_world_def example_env_def ops_defs visited_key_def Let_def parses_def)

text \<open>
  C4 as stated fails: the first call for \<^verbatim>\<open>http://[\<close> finds the link absent and adds it
  to the set, \<^verbatim>\<open>urlparse\<close> raises, and nothing is sent, then or by a later call.
\<close>

theorem unparsed_link_never_published:
  "''http://['' \<notin> redis_sets empty_world (visited_key ''http://['')
   \<and> raised (process_link (Scraper_init 0) (example_env 1 True) (Some ''http://['') 1 empty_world)
       = Some ValueError
   \<and> trace (final (process_link (Scraper_init 0) (example_env 1 True) (Some ''http://['') 1 empty_world))
       = [RedisSIsMember ''visited_urls:http://['' ''http://['', RedisSAdd ''visited_urls:http://['' ''http://['']
   \<and> topics (final (process_link (Scraper_init 0) (example_env 1 True) (Some ''http://['') 1 empty_world))
        ''new_urls'' = []
   \<and> topics (final (process_link (Scraper_init 0) (example_env 1 True) (Some ''http://['') 2
        (final (process_link (Scraper_init 0) (example_env 1 True) (Some ''http://['') 1 empty_world))))
        ''new_urls'' = []"
  by (simp add: Scraper_init_def empty_world_def example_env_def ops_defs visited_key_def Let_def)










text \<open>
  C8. \<^verbatim>\<open>empty_kafka_queue\<close> commits the offset of every message that is waiting on the
  topic and processes none of them: it makes no HTTP request and changes neither the store
  nor the topic, and whether it returns or waits for ever, the committed offset then lies past
  every message that was waiting. A worker loop started afterwards begins at that offset:
  it is delivered none of the drained messages, and if it comes to wait for messages it has
  made no request.
\<close>

theorem drain_discards:
  "fetches (final (empty_kafka_queue self env w)) = fetches w
   \<and> redis_strings (final (empty_kafka_queue self env w)) = redis_strings w
   \<and> redis_sets (final (empty_kafka_queue self env w)) = redis_sets w
   \<and> topics (final (empty_kafka_queue self env w)) = topics w
   \<and> raised (empty_kafka_queue self env w) = None
   \<and> (drain_start self w < length (topics w (kafka_topic self)) \<longrightarrow>
        committed (final (empty_kafka_queue self env w)) (kafka_topic self)
          = Some (length (topics w (kafka_topic self))))
   \<and> length (topics w (kafka_topic self)) \<le> worker_start self (final (empty_kafka_queue self env w))
   \<and> (\<forall>fuel r. run_kafka_consumer fuel self env (final (empty_kafka_queue self env w)) = Some r \<longrightarrow>
          fetches (final r) = fetches w \<and> topics (final r) = topics w)
   \<and> (\<not> consumer_iter_ends env (length (trace (final (empty_kafka_queue self env w))) + 1) \<longrightarrow>
          run_kafka_consumer (Suc fuel) self env (final (empty_kafka_queue self env w))
            = Some (Blocks (emit Sleep (final (empty_kafka_queue self env w)))))"
proof -
  define w1 where "w1 = final (empty_kafka_queue self env w)"
  have start: "length (topics (emit Sleep w1) (kafka_topic self)) \<le> worker_start self w1"
    using drain_worker_start [of w self env] by (simp add: w1_def emit_fields drain_frame)
  have a: "fetches (final r) = fetches w \<and> topics (final r) = topics w"
    if "run_kafka_consumer fuel' self env w1 = Some r" for fuel' r
    using consume_nothing [OF that [unfolded run_kafka_consumer_def] start]
    by (simp add: emit_fields fetches_emit w1_def drain_frame)
  have b: "run_kafka_consumer (Suc fuel) self env w1 = Some (Blocks (emit Sleep w1))"
    if "\<not> consumer_iter_ends env (length (trace w1) + 1)"
    using that start by (simp add: run_kafka_consumer_def emit_fields)
  have c: "raised (empty_kafka_queue self env w) = None"
    by (simp add: empty_kafka_queue_def Let_def)
  show ?thesis
    unfolding w1_def [symmetric]
    using a b c by (simp add: w1_def drain_frame drain_committed drain_worker_start)
qed

theorem drain_discards_witness:
  "drain_start (Scraper_init 0) two_pending < length (topics two_pending ''new_urls'')
   \<and> committed (final (empty_kafka_queue (Scraper_init 0) (example_env 1 True) two_pending)) ''new_urls'' = Some 2
   \<and> fetches (final (empty_kafka_queue (Scraper_init 0) (example_env 1 True) two_pending)) = []
   \<and> trace (final (empty_kafka_queue (Scraper_init 0) (example_env 1 True) two_pending))
       = [ConsumerCommit ''new_urls'' 1, ConsumerCommit ''new_urls'' 2]
   \<and> run_kafka_consumer 1 (Scraper_init 0) (example_env 1 True)
        (final (empty_kafka_queue (Scraper_init 0) (example_env 1 True) two_pending))
       = Some (Blocks (emit Sleep (final (empty_kafka_queue (Scraper_init 0) (example_env 1 True) two_pending))))"
  using drain_discards [of "Scraper_init 0" "example_env 1 True" two_pending 0]
  by (simp add: Scraper_init_def example_env_def two_pending_def empty_world_def drain_start_def
      fetches_def empty_kafka_queue_def emit_def Let_def)

text \<open>
  C9 (as the code has it). The decision is made by two Redis commands, not one:
  \<^verbatim>\<open>sismember\<close> asks, and when the answer is no a separate \<^verbatim>\<open>sadd\<close> inserts; the
  answer of \<^verbatim>\<open>sadd\<close> is not used. A call of \<^verbatim>\<open>process_link\<close> is these two steps (for
  a link not seen, its first two calls are \<^verbatim>\<open>sismember\<close> and \<^verbatim>\<open>sadd\<close>). Of two
  discoveries of one link that run one after the other at most one is admitted; of two
  that both ask before either inserts both are admitted (both stand before \<^verbatim>\<open>sadd\<close>),
  and a link that \<^verbatim>\<open>urlparse\<close> accepts is then sent twice.
\<close>

theorem process_link_check_then_add:
  "snd (link_step self env h d (link_step self env h d (AtSIsMember, w)))
     = final (process_link self env (Some h) d w)
   \<and> (h \<noteq> [] \<and> h \<notin> redis_sets w (visited_key h) \<longrightarrow>
        take 2 (new_events w (final (process_link self env (Some h) d w)))
          = [RedisSIsMember (visited_key h) h, RedisSAdd (visited_key h) h])
   \<and> snd (snd (run_two self env (h, d) (h, d') [True, True, False, False] (AtSIsMember, AtSIsMember, w)))
       = final (process_link self env (Some h) d' (final (process_link self env (Some h) d w)))
   \<and> length (topics (final (process_link self env (Some h) d' (final (process_link self env (Some h) d w))))
               (kafka_topic self))
       \<le> length (topics w (kafka_topic self)) + 1
   \<and> (h \<noteq> [] \<and> h \<notin> redis_sets w (visited_key h) \<longrightarrow>
        (\<forall>sched \<in> {[True, False], [False, True]}.
           fst (run_two self env (h, d) (h, d') sched (AtSIsMember, AtSIsMember, w)) = AtSAdd
           \<and> fst (snd (run_two self env (h, d) (h, d') sched (AtSIsMember, AtSIsMember, w))) = AtSAdd))
   \<and> (h \<noteq> [] \<and> h \<notin> redis_sets w (visited_key h) \<and> parses self env h \<longrightarrow>
        (\<forall>sched \<in> {[True, False, True, False], [True, False, False, True],
                       [False, True, True, False], [False, True, False, True]}.
           length (topics (snd (snd (run_two self env (h, d) (h, d') sched (AtSIsMember, AtSIsMember, w))))
                     (kafka_topic self))
             = length (topics w (kafka_topic self)) + 2))"
proof -
  have q: "\<forall>sched \<in> {[True, False], [False, True]}.
           fst (run_two self env (h, d) (h, d') sched (AtSIsMember, AtSIsMember, w)) = AtSAdd
           \<and> fst (snd (run_two self env (h, d) (h, d') sched (AtSIsMember, AtSIsMember, w))) = AtSAdd"
    if "h \<noteq> []" "h \<notin> redis_sets w (visited_key h)"
    using that by (simp add: redis_sismember_def emit_def)
  have a: "take 2 (new_events w (final (process_link self env (Some h) d w)))
          = [RedisSIsMember (visited_key h) h, RedisSAdd (visited_key h) h]"
    if "h \<noteq> []" "h \<notin> redis_sets w (visited_key h)"
    using that by (auto simp: new_events_def ops_defs Let_def split: option.splits prod.splits)
  have b: "snd (snd (run_two self env (h, d) (h, d') [True, True, False, False] (AtSIsMember, AtSIsMember, w)))
       = final (process_link self env (Some h) d' (final (process_link self env (Some h) d w)))"
    by (simp add: link_steps_process_link split: prod.splits)
  have c: "\<forall>sched \<in> {[True, False, True, False], [True, False, False, True],
                       [False, True, True, False], [False, True, False, True]}.
           length (topics (snd (snd (run_two self env (h, d) (h, d') sched (AtSIsMember, AtSIsMember, w))))
                     (kafka_topic self))
             = length (topics w (kafka_topic self)) + 2"
    if "h \<noteq> []" "h \<notin> redis_sets w (visited_key h)" "parses self env h"
    using both_admitted [OF that] by blast
  show ?thesis
    using a b c q link_steps_process_link [of self env h d w, symmetric]
      process_link_twice [of self env h d' d w]
    by blast
qed

theorem process_link_check_then_add_witness:
  "''/about'' \<noteq> [] \<and> ''/about'' \<notin> redis_sets empty_world (visited_key ''/about'')
   \<and> parses (Scraper_init 0) (example_env 1 True) ''/about''
   \<and> take 2 (new_events empty_world
        (final (process_link (Scraper_init 0) (example_env 1 True) (Some ''/about'') 1 empty_world)))
       = [RedisSIsMember ''visited_urls:/about'' ''/about'', RedisSAdd ''visited_urls:/about'' ''/about'']
   \<and> length (topics (snd (snd (run_two (Scraper_init 0) (example_env 1 True) (''/about'', 1) (''/about'', 2)
        [True, True, False, False] (AtSIsMember, AtSIsMember, empty_world)))) ''new_urls'') \<le> 1
   \<and> fst (run_two (Scraper_init 0) (example_env 1 True) (''/about'', 1) (''/about'', 2)
        [True, False] (AtSIsMember, AtSIsMember, empty_world)) = AtSAdd
   \<and> fst (snd (run_two (Scraper_init 0) (example_env 1 True) (''/about'', 1) (''/about'', 2)
        [True, False] (AtSIsMember, AtSIsMember, empty_world))) = AtSAdd
   \<and> length (topics (snd (snd (run_two (Scraper_init 0) (example_env 1 True) (''/about'', 1) (''/about'', 2)
        [True, False, False, True] (AtSIsMember, AtSIsMember, empty_world)))) ''new_urls'') = 2"
  using process_link_check_then_add [of "Scraper_init 0" "example_env 1 True" "''/about''" 1 empty_world 2]
  by (simp add: Scraper_init_def empty_world_def visited_key_def parses_def example_env_def)

text \<open>
  C9 as stated fails: when two workers discover the same link and both ask before either
  inserts, both are admitted and the link is sent twice.
\<close>

theorem both_discoveries_admitted:
  "trace (snd (snd (run_two (Scraper_init 0) (example_env 1 True) (''/about'', 1) (''/about'', 1)
      [True, False, True, False] (AtSIsMember, AtSIsMember, empty_world))))
     = [RedisSIsMember ''visited_urls:/about'' ''/about'', RedisSIsMember ''visited_urls:/about'' ''/about'',
        RedisSAdd ''visited_urls:/about'' ''/about'',
        KafkaSend ''new_urls'' \<lparr>msg_url = ''/about'', msg_depth = 1\<rparr>,
        RedisSAdd ''visited_urls:/about'' ''/about'',
        KafkaSend ''new_urls'' \<lparr>msg_url = ''/about'', msg_depth = 1\<rparr>]
   \<and> topics (snd (snd (run_two (Scraper_init 0) (example_env 1 True) (''/about'', 1) (''/about'', 1)
      [True, False, True, False] (AtSIsMember, AtSIsMember, empty_world)))) ''new_urls''
     = [\<lparr>msg_url = ''/about'', msg_depth = 1\<rparr>, \<lparr>msg_url = ''/about'', msg_depth = 1\<rparr>]"
  by (simp add: Scraper_init_def example_env_def empty_world_def ops_defs visited_key_def Let_def
      pc_after_def)

text \<open>
  C10. When the fetch of a task succeeds, the page file is written and the upload to S3
  raises, the error is logged and processing goes on: the temporary file is removed, the
  visited counter is incremented and read, and the whole call ends as, and differs from,
  the call in which that upload succeeds in one entry of the trace (the error line in
  place of the success line) and in the bucket only. Counters, visited sets, files and the
  queue are the same, so links are extracted and sent exactly as after a successful
  upload.
\<close>

theorem scrape_upload_failure:
  assumes "depth \<le> max_depth self" and "http_get env (length (trace w)) url = Some resp"
    and "\<not> raise_for_status resp" and "open_ok env (length (trace w) + 1) (file_path_of url)"
    and "\<not> s3_upload_ok env (length (trace w) + 3)"
  shows "take 5 (drop 4 (new_events w (final (scrape self env url depth w))))
           = [LogError UploadError, FileRemove (file_path_of url), Print (FileDeleted (file_path_of url)),
              RedisIncr (urls_visited_key url), RedisGet (urls_visited_key url)]
       \<and> files (final (scrape self env url depth w)) (file_path_of url) = None
       \<and> visited_count (final (scrape self env url depth w)) url = visited_count w url + 1
       \<and> same_but_event (length (trace w) + 4) (LogError UploadError)
            (final (scrape self env url depth w))
            (final (scrape self (upload_succeeds_at (length (trace w) + 3) env) url depth w))
       \<and> same_run (length (trace w) + 4) (LogError UploadError)
            (scrape self env url depth w)
            (scrape self (upload_succeeds_at (length (trace w) + 3) env) url depth w)"
proof -
  define w0 where "w0 = emit (HttpGet url) w"
  have s: "scrape self env url depth w = scrape_response self env url depth resp w0"
    using assms(1-3) by (simp add: scrape_def w0_def)
  have s': "scrape self (upload_succeeds_at (length (trace w) + 3) env) url depth w
            = scrape_response self (upload_succeeds_at (length (trace w) + 3) env) url depth resp w0"
    using assms(1-3) by (simp add: scrape_def w0_def upload_succeeds_at_def)
  have l: "length (trace w0) + 2 = length (trace w) + 3" "length (trace w0) + 3 = length (trace w) + 4"
    by (simp_all add: w0_def emit_fields)
  have o: "open_ok env (length (trace w0)) (file_path_of url)"
    using assms(4) by (simp add: w0_def emit_fields)
  obtain es where "trace (final (scrape self env url depth w)) = trace (counted self env url resp w0) @ es"
    using scrape_response_trace [OF o] s by metis
  then have 1: "take 5 (drop 4 (new_events w (final (scrape self env url depth w))))
           = [LogError UploadError, FileRemove (file_path_of url), Print (FileDeleted (file_path_of url)),
              RedisIncr (urls_visited_key url), RedisGet (urls_visited_key url)]"
    using assms(4,5) by (simp add: w0_def counted_trace new_events_def)
  have 2: "files (final (scrape self env url depth w)) (file_path_of url) = None"
    using o by (simp add: s scrape_response_files)
  have "\<not> fetch_fails env w url"
    using assms(2,3) by (simp add: fetch_fails_def)
  then have 3: "visited_count (final (scrape self env url depth w)) url = visited_count w url + 1"
    using assms(1,4) by (simp add: scrape_counts)
  have "\<not> s3_upload_ok env (length (trace w0) + 2)"
    using assms(5) unfolding l(1) .
  then have "same_run (length (trace w0) + 3) (LogError UploadError)
           (scrape_response self env url depth resp w0)
           (scrape_response self (upload_succeeds_at (length (trace w0) + 2) env) url depth resp w0)"
    using o by (rule scrape_response_upload_env)
  then have 4: "same_run (length (trace w) + 4) (LogError UploadError)
            (scrape self env url depth w)
            (scrape self (upload_succeeds_at (length (trace w) + 3) env) url depth w)"
    unfolding s s' l .
  then have 5: "same_but_event (length (trace w) + 4) (LogError UploadError)
            (final (scrape self env url depth w))
            (final (scrape self (upload_succeeds_at (length (trace w) + 3) env) url depth w))"
    by (cases "scrape self env url depth w";
        cases "scrape self (upload_succeeds_at (length (trace w) + 3) env) url depth w") simp_all
  show ?thesis
    using 1 2 3 4 5 by simp
qed

theorem scrape_upload_failure_witness:
  "0 \<le> max_depth (Scraper_init 0)
   \<and> http_get (example_env 1 False) (length (trace empty_world)) ''http://a'' = Some (example_page 200)
   \<and> \<not> raise_for_status (example_page 200)
   \<and> open_ok (example_env 1 False) (length (trace empty_world) + 1) (file_path_of ''http://a'')
   \<and> \<not> s3_upload_ok (example_env 1 False) (length (trace empty_world) + 3)
   \<and> take 5 (drop 4 (new_events empty_world
        (final (scrape (Scraper_init 0) (example_env 1 False) ''http://a'' 0 empty_world))))
       = [LogError UploadError, FileRemove ''./http___a.txt'', Print (FileDeleted ''./http___a.txt''),
          RedisIncr ''urls_visited_count:http://a'', RedisGet ''urls_visited_count:http://a'']
   \<and> files (final (scrape (Scraper_init 0) (example_env 1 False) ''http://a'' 0 empty_world)) ''./http___a.txt'' = None
   \<and> visited_count (final (scrape (Scraper_init 0) (example_env 1 False) ''http://a'' 0 empty_world)) ''http://a'' = 1
   \<and> same_but_event 4 (LogError UploadError)
         (final (scrape (Scraper_init 0) (example_env 1 False) ''http://a'' 0 empty_world))
         (final (scrape (Scraper_init 0) (upload_succeeds_at 3 (example_env 1 False)) ''http://a'' 0 empty_world))"
  using scrape_upload_failure [of 0 "Scraper_init 0" "example_env 1 False" empty_world "''http://a''" "example_page 200"]
  by (simp add: Scraper_init_def example_env_def empty_world_def example_page_def visited_count_def
      file_path_of_def file_name_of_def urls_visited_key_def raise_for_status_def)

end
